theory Spec2Isabelle
  imports Main "HOL-Library.Word" "HOL-Library.Monad_Syntax"
begin

section \<open>Strings and character classes\<close>

text \<open>
  A JavaScript string is a sequence of UTF-16 code units; \<open>content[i]\<close> and
  \<open>value.length\<close> index and count code units. A string literal of the source is
  written \<open>js ''...''\<close>.
\<close>

type_synonym unit16 = "16 word"

type_synonym jsstring = "unit16 list"

definition js :: "string \<Rightarrow> jsstring" where
  "js s = map of_char s"

text \<open>
  The regular expression \<open>/\s/\<close>: the WhiteSpace and LineTerminator code points of
  ECMAScript (TAB, LF, VT, FF, CR, SP, NBSP, the Unicode space separators, LS, PS and
  ZWNBSP).
\<close>

definition is_space :: "unit16 \<Rightarrow> bool" where
  "is_space c =
     (c = 0x9 \<or> c = 0xA \<or> c = 0xB \<or> c = 0xC \<or> c = 0xD \<or> c = 0x20 \<or> c = 0xA0 \<or>
      c = 0x1680 \<or> (0x2000 \<le> c \<and> c \<le> 0x200A) \<or> c = 0x2028 \<or> c = 0x2029 \<or>
      c = 0x202F \<or> c = 0x205F \<or> c = 0x3000 \<or> c = 0xFEFF)"

definition newline :: unit16 where
  "newline = 0xA"

definition quote :: unit16 where
  "quote = 0x22"

text \<open>\<open>/[0-9]/\<close>, \<open>/[a-zA-Z_]/\<close> and \<open>/[a-zA-Z0-9_]/\<close>.\<close>

definition is_digit :: "unit16 \<Rightarrow> bool" where
  "is_digit c = (of_char CHR ''0'' \<le> c \<and> c \<le> of_char CHR ''9'')"

definition is_ident_start :: "unit16 \<Rightarrow> bool" where
  "is_ident_start c =
     ((of_char CHR ''a'' \<le> c \<and> c \<le> of_char CHR ''z'') \<or>
      (of_char CHR ''A'' \<le> c \<and> c \<le> of_char CHR ''Z'') \<or> c = of_char CHR ''_'')"

definition is_ident_char :: "unit16 \<Rightarrow> bool" where
  "is_ident_char c =
     ((of_char CHR ''a'' \<le> c \<and> c \<le> of_char CHR ''z'') \<or>
      (of_char CHR ''A'' \<le> c \<and> c \<le> of_char CHR ''Z'') \<or>
      (of_char CHR ''0'' \<le> c \<and> c \<le> of_char CHR ''9'') \<or> c = of_char CHR ''_'')"

section \<open>Positions, tokens and diagnostics\<close>

record Position =
  line :: nat
  character :: nat

record Range =
  start :: Position
  end_pos :: Position

datatype TokenType = KEYWORD | IDENTIFIER | NUMBER | STRING | OPERATOR | PUNCTUATION | UNKNOWN

record Token =
  type :: TokenType
  value_tok :: jsstring
  position :: Position
  length_tok :: nat

definition keyword_set :: "jsstring list" where
  "keyword_set = map js [''var'', ''return'', ''if'', ''else'', ''while'', ''for'', ''function'',
     ''true'', ''false'', ''null'', ''meow'', ''meowln'']"

definition operators :: "jsstring list" where
  "operators = map js [''+'', ''-'', ''*'', ''/'', ''%'', ''=='', ''!='', ''<'', ''>'', ''&&'',
     ''||'', ''!'', ''='', ''['', '']'', ''('', '')'', ''}'', ''{'', '';'']"

section \<open>The lexer\<close>

text \<open>
  The variables \<open>line\<close> and \<open>character\<close> of \<open>tokenize\<close> are carried as a position.
\<close>

definition advance :: "Position \<Rightarrow> nat \<Rightarrow> Position" where
  "advance p n = p\<lparr>character := character p + n\<rparr>"

text \<open>
  The token pushed by a pass of the outer loop that starts at a character \<open>char\<close>
  which is not whitespace, \<open>rest\<close> being the input after it. The inner loops over
  digits, identifier characters and the body of a string are \<open>takeWhile\<close>; the
  branches are tried in the order of the source.
\<close>

definition scan_token :: "unit16 \<Rightarrow> jsstring \<Rightarrow> Position \<Rightarrow> Token" where
  "scan_token char rest p =
    (if is_digit char then
       (let v = takeWhile is_digit (char # rest) in
        \<lparr>type = NUMBER, value_tok = v, position = p, length_tok = length v\<rparr>)
     else if is_ident_start char then
       (let v = takeWhile is_ident_char (char # rest) in
        \<lparr>type = (if v \<in> set keyword_set then KEYWORD else IDENTIFIER), value_tok = v,
          position = p, length_tok = length v\<rparr>)
     else if char = quote then
       (let body = takeWhile (\<lambda>c. c \<noteq> quote) rest;
            after = drop (length body) rest;
            v = (if after \<noteq> [] \<and> hd after = quote then char # body @ [quote]
                 else char # body)
        in \<lparr>type = STRING, value_tok = v, position = p, length_tok = length v\<rparr>)
     else if [char] \<in> set operators then
       (let v = (case rest of
                   [] \<Rightarrow> [char]
                 | nextChar # _ \<Rightarrow>
                     if [char, nextChar] \<in> set operators then [char, nextChar] else [char])
        in \<lparr>type = OPERATOR, value_tok = v, position = p, length_tok = length v\<rparr>)
     else
       \<lparr>type = UNKNOWN, value_tok = [char], position = p, length_tok = 1\<rparr>)"

lemma is_ident_start_char: "is_ident_start c \<Longrightarrow> is_ident_char c"
  by (auto simp: is_ident_start_def is_ident_char_def)

lemma scan_token_length: "length_tok (scan_token char rest p) = length (value_tok (scan_token char rest p))"
  by (simp add: scan_token_def Let_def)

lemma scan_token_positive: "0 < length_tok (scan_token char rest p)"
  by (auto simp: scan_token_def Let_def is_ident_start_char split: list.splits)

text \<open>
  \<open>tokenize\<close>, as a recursion over the part of \<open>content\<close> from \<open>current\<close> on. Each
  equation is one pass of the outer \<open>while\<close>. In every branch that pushes a token the
  source moves \<open>current\<close> and \<open>character\<close> forward once for each character it adds
  to \<open>value\<close>, that is by the length of the token; the loop \<open>tokenize_loop\<close> below
  keeps the two counters as the source does and is shown to compute the same list.
\<close>

function tok :: "jsstring \<Rightarrow> Position \<Rightarrow> Token list" where
  "tok [] p = []"
| "tok (char # rest) p =
    (if is_space char then
       (if char = newline then tok rest \<lparr>line = line p + 1, character = 0\<rparr>
        else tok rest (advance p 1))
     else
       (let t = scan_token char rest p
        in t # tok (drop (length_tok t) (char # rest)) (advance p (length_tok t))))"
  by pat_completeness auto
termination
proof (relation "measure (\<lambda>(s, p). length s)")
  fix char rest p t
  assume "t = scan_token char rest p"
  then have "0 < length_tok t"
    by (simp add: scan_token_positive)
  then show "((drop (length_tok t) (char # rest), advance p (length_tok t)), char # rest, p)
      \<in> measure (\<lambda>(s, p). length s)"
    by simp
qed auto

definition tokenize :: "jsstring \<Rightarrow> Token list" where
  "tokenize content = tok content \<lparr>line = 0, character = 0\<rparr>"

section \<open>The lexer as the loop of the source\<close>

text \<open>
  The same function with the counters \<open>current\<close>, \<open>line\<close> and \<open>character\<close> and the
  \<open>while\<close> loops of the source, none of them assumed to end: a loop that does not
  return has the value \<open>None\<close>. \<open>run_loop\<close> is the inner loop that appends to
  \<open>value\<close> while the character at \<open>current\<close> passes a test.
\<close>

partial_function (option) run_loop ::
  "(unit16 \<Rightarrow> bool) \<Rightarrow> jsstring \<Rightarrow> jsstring \<Rightarrow> nat \<Rightarrow> nat \<Rightarrow> (jsstring \<times> nat \<times> nat) option" where
  "run_loop test content v cur ch =
     (if cur < length content \<and> test (content ! cur) then
        run_loop test content (v @ [content ! cur]) (cur + 1) (ch + 1)
      else Some (v, cur, ch))"

definition push_token :: "Token list \<Rightarrow> TokenType \<Rightarrow> jsstring \<Rightarrow> Position \<Rightarrow> Token list" where
  "push_token tokens ty v startPos =
     tokens @ [\<lparr>type = ty, value_tok = v, position = startPos, length_tok = length v\<rparr>]"

partial_function (option) tokenize_loop ::
  "jsstring \<Rightarrow> Token list \<Rightarrow> nat \<Rightarrow> nat \<Rightarrow> nat \<Rightarrow> Token list option" where
  "tokenize_loop content tokens cur ln ch =
     (if cur < length content then
        (let char = content ! cur in
         if is_space char then
           (if char = newline then tokenize_loop content tokens (cur + 1) (ln + 1) 0
            else tokenize_loop content tokens (cur + 1) ln (ch + 1))
         else if is_digit char then
           do {
             (v, cur', ch') \<leftarrow> run_loop is_digit content [] cur ch;
             tokenize_loop content
               (push_token tokens NUMBER v \<lparr>line = ln, character = ch\<rparr>) cur' ln ch'
           }
         else if is_ident_start char then
           do {
             (v, cur', ch') \<leftarrow> run_loop is_ident_char content [] cur ch;
             tokenize_loop content
               (push_token tokens (if v \<in> set keyword_set then KEYWORD else IDENTIFIER) v
                  \<lparr>line = ln, character = ch\<rparr>) cur' ln ch'
           }
         else if char = quote then
           do {
             (v, cur', ch') \<leftarrow> run_loop (\<lambda>c. c \<noteq> quote) content [char] (cur + 1) (ch + 1);
             if cur' < length content \<and> content ! cur' = quote then
               tokenize_loop content
                 (push_token tokens STRING (v @ [quote]) \<lparr>line = ln, character = ch\<rparr>)
                 (cur' + 1) ln (ch' + 1)
             else
               tokenize_loop content
                 (push_token tokens STRING v \<lparr>line = ln, character = ch\<rparr>) cur' ln ch'
           }
         else if [char] \<in> set operators then
           (if cur + 1 < length content \<and> [char, content ! (cur + 1)] \<in> set operators then
              tokenize_loop content
                (push_token tokens OPERATOR [char, content ! (cur + 1)]
                   \<lparr>line = ln, character = ch\<rparr>)
                (cur + 1 + 1) ln (ch + 1 + 1)
            else
              tokenize_loop content
                (push_token tokens OPERATOR [char] \<lparr>line = ln, character = ch\<rparr>)
                (cur + 1) ln (ch + 1))
         else
           tokenize_loop content
             (tokens @ [\<lparr>type = UNKNOWN, value_tok = [char],
                position = \<lparr>line = ln, character = ch\<rparr>, length_tok = 1\<rparr>])
             (cur + 1) ln (ch + 1))
      else Some tokens)"

section \<open>Reading the input back from the tokens\<close>

text \<open>
  The statement that a list of token values, with whitespace skipped before each of them
  and after the last one, is the whole input: before each value the longest run of
  whitespace is skipped, the value itself must follow, and what is left after the last
  value is whitespace only.
\<close>

fun reconstructs :: "jsstring list \<Rightarrow> jsstring \<Rightarrow> bool" where
  "reconstructs [] s = list_all is_space s"
| "reconstructs (v # vs) s =
     (let skipped = takeWhile is_space s;
          r = drop (length skipped) s
      in take (length v) r = v \<and> reconstructs vs (drop (length v) r))"

text \<open>
  The runs of characters skipped on the way: the one before each value and the one
  after the last value. \<open>weave\<close> puts the runs and the values together again, a run
  first.
\<close>

fun skipped_runs :: "jsstring list \<Rightarrow> jsstring \<Rightarrow> jsstring list" where
  "skipped_runs [] s = [s]"
| "skipped_runs (v # vs) s =
     takeWhile is_space s # skipped_runs vs (drop (length v) (dropWhile is_space s))"

fun weave :: "jsstring list \<Rightarrow> jsstring list \<Rightarrow> jsstring" where
  "weave (g # gs) (v # vs) = g @ v @ weave gs vs"
| "weave gs [] = concat gs"
| "weave [] vs = concat vs"

section \<open>Diagnostics\<close>

definition DiagnosticSeverity_Error :: nat where
  "DiagnosticSeverity_Error = 1"

definition DiagnosticSeverity_Warning :: nat where
  "DiagnosticSeverity_Warning = 2"

definition DiagnosticSeverity_Information :: nat where
  "DiagnosticSeverity_Information = 3"

definition DiagnosticSeverity_Hint :: nat where
  "DiagnosticSeverity_Hint = 4"

text \<open>The optional field \<open>data\<close> is never set and is left out.\<close>

record Diagnostic =
  range_diag :: Range
  severity :: nat
  source :: jsstring
  message :: jsstring

definition createDiagnostic :: "Position \<Rightarrow> Position \<Rightarrow> jsstring \<Rightarrow> nat \<Rightarrow> Diagnostic" where
  "createDiagnostic s e msg sev =
     \<lparr>range_diag = \<lparr>start = s, end_pos = e\<rparr>, severity = sev, source = js ''Catt LSP'',
      message = msg\<rparr>"

definition createError :: "Token \<Rightarrow> jsstring \<Rightarrow> Diagnostic" where
  "createError token msg =
     (let s = position token;
          e = \<lparr>line = line s, character = character s + length_tok token\<rparr>
      in createDiagnostic s e msg DiagnosticSeverity_Error)"

definition apostrophe :: unit16 where
  "apostrophe = 0x27"

text \<open>A number inside a template string: its decimal digits.\<close>

function number_string :: "nat \<Rightarrow> jsstring" where
  "number_string n =
     (if n < 10 then [of_nat (48 + n)]
      else number_string (n div 10) @ [of_nat (48 + n mod 10)])"
  by pat_completeness auto
termination
  by (relation "measure id") auto

section \<open>The validator\<close>

record BlockContext =
  isIf :: bool
  startToken :: Token
  startIndex :: nat
  braceCount :: int

text \<open>
  The local variables of \<open>validateSyntax\<close>. The top of \<open>blockStack\<close> is its last
  element, as with \<open>push\<close> and \<open>pop\<close>.
\<close>

record Validator =
  diagnostics :: "Diagnostic list"
  declaredVariables :: "jsstring set"
  blockStack :: "BlockContext list"
  current :: nat

definition push_error :: "Token \<Rightarrow> jsstring \<Rightarrow> Validator \<Rightarrow> Validator" where
  "push_error token msg st = st\<lparr>diagnostics := diagnostics st @ [createError token msg]\<rparr>"

text \<open>The loop over the initializer of a \<open>var\<close> declaration, up to the next \<open>;\<close>.\<close>

function scan_initializer ::
  "Token list \<Rightarrow> jsstring set \<Rightarrow> nat \<Rightarrow> Diagnostic list \<Rightarrow> nat \<times> Diagnostic list" where
  "scan_initializer tokens declared cur diags =
     (if cur < length tokens \<and> value_tok (tokens ! cur) \<noteq> js '';'' then
        scan_initializer tokens declared (cur + 1)
          (if type (tokens ! cur) = IDENTIFIER \<and> value_tok (tokens ! cur) \<notin> declared
           then diags @ [createError (tokens ! cur)
                  (js ''Undefined variable '' @ [quote] @ value_tok (tokens ! cur) @ [quote] @
                   js '' in initialization'')]
           else diags)
      else (cur, diags))"
  by pat_completeness auto
termination
  by (relation "measure (\<lambda>(tokens, declared, cur, diags). length tokens - cur)") auto

text \<open>The loop that skips to the parenthesis closing a condition or an argument list.\<close>

function skip_parens :: "Token list \<Rightarrow> nat \<Rightarrow> int \<Rightarrow> nat \<times> int" where
  "skip_parens tokens cur parenCount =
     (if cur < length tokens \<and> parenCount > 0 then
        (let opened = (if value_tok (tokens ! cur) = js ''('' then parenCount + 1 else parenCount);
             closed = (if value_tok (tokens ! cur) = js '')'' then opened - 1 else opened)
         in skip_parens tokens (cur + 1) closed)
      else (cur, parenCount))"
  by pat_completeness auto
termination
  by (relation "measure (\<lambda>(tokens, cur, parenCount). length tokens - cur)") auto

definition close_brace :: "Validator \<Rightarrow> Validator" where
  "close_brace st =
     (let bs = blockStack st;
          bs' = (if length bs > 0 then
                   (let block = (last bs)\<lparr>braceCount := braceCount (last bs) - 1\<rparr>
                    in if braceCount block = 0 then butlast bs
                       else bs[length bs - 1 := block])
                 else bs)
      in st\<lparr>blockStack := bs', current := current st + 1\<rparr>)"

definition open_brace :: "Validator \<Rightarrow> Validator" where
  "open_brace st =
     (let bs = blockStack st;
          bs' = (if length bs > 0 \<and> startIndex (last bs) \<noteq> current st then
                   bs[length bs - 1 := (last bs)\<lparr>braceCount := braceCount (last bs) + 1\<rparr>]
                 else bs)
      in st\<lparr>blockStack := bs', current := current st + 1\<rparr>)"

definition var_case :: "Token list \<Rightarrow> Token \<Rightarrow> Validator \<Rightarrow> Validator" where
  "var_case tokens token st =
     (let cur = current st in
      if cur + 1 \<ge> length tokens \<or> type (tokens ! (cur + 1)) \<noteq> IDENTIFIER then
        (push_error token (js ''var keyword must be followed by an identifier'') st)
          \<lparr>current := cur + 1\<rparr>
      else if cur + 2 \<ge> length tokens \<or> value_tok (tokens ! (cur + 2)) \<noteq> js ''='' then
        (push_error (tokens ! (cur + 1))
           (js ''var declaration requires initialization with '' @
            [apostrophe] @ js ''='' @ [apostrophe]) st)
          \<lparr>current := cur + 2\<rparr>
      else
        (let declared = insert (value_tok (tokens ! (cur + 1))) (declaredVariables st);
             (cur', diags) = scan_initializer tokens declared (cur + 3) (diagnostics st);
             st' = st\<lparr>diagnostics := diags, declaredVariables := declared, current := cur'\<rparr>
         in if cur' \<ge> length tokens \<or> value_tok (tokens ! cur') \<noteq> js '';'' then
              push_error (tokens ! (cur' - 1)) (js ''var declaration must end with semicolon'') st'
            else st'\<lparr>current := cur' + 1\<rparr>))"

definition call_case :: "Token list \<Rightarrow> Token \<Rightarrow> Validator \<Rightarrow> Validator" where
  "call_case tokens token st =
     (let cur = current st in
      if cur + 1 \<ge> length tokens \<or> value_tok (tokens ! (cur + 1)) \<noteq> js ''('' then
        (push_error token
           (js ''Invalid '' @ value_tok token @ js '' call. Expected '' @ [quote] @ js ''('' @
            [quote] @ js '' after '' @ [quote] @ value_tok token @ [quote]) st)
          \<lparr>current := cur + 1\<rparr>
      else
        (let (cur', parenCount) = skip_parens tokens (cur + 2) 1;
             st' = (if parenCount > 0 then
                      push_error token
                        (js ''Unclosed parenthesis in '' @ value_tok token @ js '' call'') st
                    else st)
         in st'\<lparr>current := cur' + 1\<rparr>))"

text \<open>
  The block of a control statement or of an \<open>else\<close>, expected at \<open>cur\<close>: on \<open>{\<close> the
  block is pushed and the cursor moves past the brace; in both cases the \<open>break\<close> that
  follows leaves the \<open>switch\<close> and the cursor is moved once more at the end of the pass.
\<close>

definition expect_block ::
  "Token list \<Rightarrow> Token \<Rightarrow> bool \<Rightarrow> jsstring \<Rightarrow> nat \<Rightarrow> Validator \<Rightarrow> Validator" where
  "expect_block tokens token is_if what cur st =
     (if cur < length tokens \<and> value_tok (tokens ! cur) = js ''{'' then
        st\<lparr>blockStack := blockStack st @
              [\<lparr>isIf = is_if, startToken = token, startIndex = cur, braceCount = 1\<rparr>],
            current := cur + 1 + 1\<rparr>
      else
        (push_error (if cur < length tokens then tokens ! cur else token)
           (js ''Expected block starting with '' @ [quote] @ js ''{'' @ [quote] @ js '' for '' @
            what @ js '' statement'') st)
          \<lparr>current := cur + 1\<rparr>)"

definition control_case :: "Token list \<Rightarrow> Token \<Rightarrow> Validator \<Rightarrow> Validator" where
  "control_case tokens token st =
     (let cur = current st in
      if cur + 1 \<ge> length tokens \<or> value_tok (tokens ! (cur + 1)) \<noteq> js ''('' then
        (push_error token
           (js ''Invalid '' @ value_tok token @ js '' statement. Expected '' @ [quote] @
            js ''('' @ [quote] @ js '' after '' @ [quote] @ js ''if'' @ [quote]) st)
          \<lparr>current := cur + 1\<rparr>
      else
        (let (cur', parenCount) = skip_parens tokens (cur + 2) 1 in
         if parenCount > 0 then
           (push_error token
              (js ''Unclosed parenthesis in '' @ value_tok token @ js '' condition'') st)
             \<lparr>current := cur'\<rparr>
         else expect_block tokens token True (value_tok token) cur' st))"

definition else_case :: "Token list \<Rightarrow> Token \<Rightarrow> Validator \<Rightarrow> Validator" where
  "else_case tokens token st =
     (let cur = current st in
      if \<not> list_ex isIf (blockStack st) then
        (push_error token (js ''else statement without preceding if statement'') st)
          \<lparr>current := cur + 1\<rparr>
      else if cur + 1 < length tokens \<and> value_tok (tokens ! (cur + 1)) = js ''if'' then
        (if cur + 2 \<ge> length tokens \<or> value_tok (tokens ! (cur + 2)) \<noteq> js ''('' then
           (push_error (tokens ! (cur + 2 - 1))
              (js ''Invalid else if statement. Expected '' @ [quote] @ js ''('' @ [quote] @
               js '' after '' @ [quote] @ js ''if'' @ [quote]) st)
             \<lparr>current := cur + 2\<rparr>
         else
           (let (cur', parenCount) = skip_parens tokens (cur + 3) 1 in
            if parenCount > 0 then
              (push_error (tokens ! (cur' - 1))
                 (js ''Unclosed parenthesis in else if condition'') st)
                \<lparr>current := cur'\<rparr>
            else expect_block tokens token False (js ''else'') cur' st))
      else expect_block tokens token False (js ''else'') (cur + 1) st)"

text \<open>One pass of the main loop, at a cursor inside the token sequence.\<close>

definition validate_step :: "Token list \<Rightarrow> Validator \<Rightarrow> Validator" where
  "validate_step tokens st =
     (let token = tokens ! current st in
      if value_tok token = js ''}'' then close_brace st
      else if value_tok token = js ''{'' then open_brace st
      else if type token = UNKNOWN then
        (push_error token (js ''Unexpected character: '' @ value_tok token) st)
          \<lparr>current := current st + 1\<rparr>
      else if type token = KEYWORD then
        (if value_tok token = js ''var'' then var_case tokens token st
         else if value_tok token = js ''meow'' \<or> value_tok token = js ''meowln'' then
           call_case tokens token st
         else if value_tok token = js ''for'' \<or> value_tok token = js ''while'' \<or>
                 value_tok token = js ''if'' then
           control_case tokens token st
         else if value_tok token = js ''else'' then else_case tokens token st
         else st\<lparr>current := current st + 1\<rparr>)
      else if type token = IDENTIFIER \<and> value_tok token \<notin> declaredVariables st then
        (push_error token (js ''Undefined variable '' @ [quote] @ value_tok token @ [quote]) st)
          \<lparr>current := current st + 1\<rparr>
      else st\<lparr>current := current st + 1\<rparr>)"

text \<open>Every pass moves the cursor forward, so the main loop ends.\<close>

declare tok.simps [simp del] skip_parens.simps [simp del] scan_initializer.simps [simp del]
  number_string.simps [simp del]

lemma skip_parens_ge: "skip_parens tokens cur pc = (cur', pc') \<Longrightarrow> cur \<le> cur'"
proof (induction tokens cur pc rule: skip_parens.induct)
  case (1 tokens cur parenCount)
  show ?case
  proof (cases "cur < length tokens \<and> parenCount > 0")
    case True
    with "1.prems" "1.IH" show ?thesis
      by (subst (asm) skip_parens.simps) (fastforce simp: Let_def)
  next
    case False
    with "1.prems" show ?thesis
      by (subst (asm) skip_parens.simps) auto
  qed
qed

lemma scan_initializer_ge: "scan_initializer tokens d cur ds = (cur', ds') \<Longrightarrow> cur \<le> cur'"
proof (induction tokens d cur ds rule: scan_initializer.induct)
  case (1 tokens declared cur diags)
  show ?case
  proof (cases "cur < length tokens \<and> value_tok (tokens ! cur) \<noteq> js '';''")
    case True
    with "1.prems" "1.IH" show ?thesis
      by (subst (asm) scan_initializer.simps) (fastforce simp: Let_def)
  next
    case False
    with "1.prems" show ?thesis
      by (subst (asm) scan_initializer.simps) auto
  qed
qed

lemma current_push_error [simp]: "current (push_error t m st) = current st"
  by (simp add: push_error_def)

lemma close_brace_advances: "current (close_brace st) = current st + 1"
  by (simp add: close_brace_def Let_def)

lemma open_brace_advances: "current (open_brace st) = current st + 1"
  by (simp add: open_brace_def Let_def)

lemma var_case_advances: "current st < current (var_case tokens token st)"
  by (auto simp: var_case_def Let_def split: prod.splits dest!: scan_initializer_ge)

lemma call_case_advances: "current st < current (call_case tokens token st)"
  by (auto simp: call_case_def Let_def split: prod.splits dest!: skip_parens_ge)

lemma expect_block_advances: "cur < current (expect_block tokens token b w cur st)"
  by (simp add: expect_block_def)

lemma control_case_advances: "current st < current (control_case tokens token st)"
  by (auto simp: control_case_def Let_def split: prod.splits dest!: skip_parens_ge
      intro: less_le_trans[OF _ less_imp_le[OF expect_block_advances]])

lemma else_case_advances: "current st < current (else_case tokens token st)"
  by (auto simp: else_case_def Let_def split: prod.splits dest!: skip_parens_ge
      intro: less_le_trans[OF _ less_imp_le[OF expect_block_advances]])

lemma validate_step_advances: "current st < current (validate_step tokens st)"
  by (simp add: validate_step_def Let_def close_brace_advances open_brace_advances
      var_case_advances call_case_advances control_case_advances else_case_advances)

function validate_loop :: "Token list \<Rightarrow> Validator \<Rightarrow> Validator" where
  "validate_loop tokens st =
     (if current st < length tokens then validate_loop tokens (validate_step tokens st)
      else st)"
  by pat_completeness auto
termination
  by (relation "measure (\<lambda>(tokens, st). length tokens - current st)")
    (auto intro: diff_less_mono2 validate_step_advances)

declare validate_loop.simps [simp del]

text \<open>The pass over the blocks left on the stack when the main loop has ended.\<close>

definition unclosed_blocks :: "BlockContext list \<Rightarrow> Diagnostic list" where
  "unclosed_blocks bs =
     map (\<lambda>block. createError (startToken block)
            (js ''Unclosed block starting at position '' @ number_string (startIndex block)))
       (filter (\<lambda>block. braceCount block > 0) bs)"

definition initial :: Validator where
  "initial = \<lparr>diagnostics = [], declaredVariables = {}, blockStack = [], current = 0\<rparr>"

definition validateSyntax :: "Token list \<Rightarrow> Diagnostic list" where
  "validateSyntax tokens =
     (let st = validate_loop tokens initial
      in diagnostics st @ unclosed_blocks (blockStack st))"

text \<open>
  The state of the main loop after at most \<open>n\<close> passes: with \<open>n\<close> running over the
  natural numbers, these are the states at the head of the loop.
\<close>

fun validate_passes :: "nat \<Rightarrow> Token list \<Rightarrow> Validator \<Rightarrow> Validator" where
  "validate_passes 0 tokens st = st"
| "validate_passes (Suc n) tokens st =
     (if current st < length tokens then validate_passes n tokens (validate_step tokens st)
      else st)"

text \<open>The invariant of the block stack: every block on it has a count of at least 1.\<close>

definition blocks_counted :: "Validator \<Rightarrow> bool" where
  "blocks_counted st = (\<forall>block \<in> set (blockStack st). 1 \<le> braceCount block)"

text \<open>
  The shape of a diagnostic made by \<open>createError\<close> for a token of the sequence, and the
  invariant that every diagnostic pushed so far has it and every block on the stack was
  opened by a token of the sequence.
\<close>

definition error_at :: "Token list \<Rightarrow> Diagnostic \<Rightarrow> bool" where
  "error_at tokens d \<longleftrightarrow>
     severity d = 1 \<and> source d = js ''Catt LSP'' \<and>
     (\<exists>token \<in> set tokens. range_diag d =
        \<lparr>start = position token,
         end_pos = \<lparr>line = line (position token),
                    character = character (position token) + length_tok token\<rparr>\<rparr>)"

definition anchored :: "Token list \<Rightarrow> Validator \<Rightarrow> bool" where
  "anchored tokens st \<longleftrightarrow>
     (\<forall>d \<in> set (diagnostics st). error_at tokens d) \<and>
     (\<forall>block \<in> set (blockStack st). startToken block \<in> set tokens)"

section \<open>Properties of the lexer\<close>

lemma digit_not_space: "is_digit c \<Longrightarrow> \<not> is_space c"
  unfolding is_digit_def is_space_def
  by (auto simp: word_le_nat_alt)

lemma scan_token_type: "type (scan_token char rest p) \<noteq> PUNCTUATION"
  by (simp add: scan_token_def Let_def)

lemma operator_heads:
  "v \<in> set operators \<Longrightarrow> v \<noteq> [] \<and> \<not> is_digit (hd v) \<and> \<not> is_ident_start (hd v) \<and> hd v \<noteq> quote"
  by (auto simp: operators_def js_def is_digit_def is_ident_start_def quote_def)

lemma scan_token_operator:
  "value_tok (scan_token char rest p) \<in> set operators \<Longrightarrow> type (scan_token char rest p) = OPERATOR"
  by (auto simp: scan_token_def Let_def dest: operator_heads split: if_splits)

lemma tok_tokens:
  assumes "\<And>char rest p. Q (scan_token char rest p)"
  shows "t \<in> set (tok s p) \<Longrightarrow> Q t"
proof (induction s p rule: tok.induct)
  case (1 p)
  then show ?case by (simp add: tok.simps)
next
  case (2 char rest p)
  show ?case
  proof (cases "is_space char")
    case True
    with 2 show ?thesis
      by (cases "char = newline") (simp_all add: tok.simps)
  next
    case False
    with "2.prems" have "t = scan_token char rest p \<or>
        t \<in> set (tok (drop (length_tok (scan_token char rest p)) (char # rest))
                 (advance p (length_tok (scan_token char rest p))))"
      by (simp add: tok.simps Let_def)
    with False "2.IH"(3) assms show ?thesis
      by blast
  qed
qed

lemma take_length_takeWhile: "take (length (takeWhile P xs)) xs = takeWhile P xs"
  by (metis takeWhile_eq_take)

lemma take_Suc_takeWhile:
  assumes "drop (length (takeWhile P xs)) xs \<noteq> []"
    and "hd (drop (length (takeWhile P xs)) xs) = q"
  shows "take (Suc (length (takeWhile P xs))) xs = takeWhile P xs @ [q]"
proof -
  let ?n = "length (takeWhile P xs)"
  from assms(1) have n: "?n < length xs" by simp
  have "take (Suc ?n) xs = take ?n xs @ [xs ! ?n]"
    using n by (rule take_Suc_conv_app_nth)
  moreover have "xs ! ?n = q"
    using assms(2) n by (simp add: hd_drop_conv_nth)
  ultimately show ?thesis
    by (simp add: take_length_takeWhile)
qed

lemma scan_token_prefix:
  "take (length_tok (scan_token char rest p)) (char # rest) = value_tok (scan_token char rest p)"
proof -
  consider (digit) "is_digit char"
    | (ident) "\<not> is_digit char" "is_ident_start char"
    | (string) "\<not> is_digit char" "\<not> is_ident_start char" "char = quote"
    | (operator) "\<not> is_digit char" "\<not> is_ident_start char" "char \<noteq> quote"
        "[char] \<in> set operators"
    | (unknown) "\<not> is_digit char" "\<not> is_ident_start char" "char \<noteq> quote"
        "[char] \<notin> set operators"
    by blast
  then show ?thesis
  proof cases
    case digit
    then show ?thesis
      by (simp add: scan_token_def Let_def take_length_takeWhile)
  next
    case ident
    then show ?thesis
      by (simp add: scan_token_def Let_def take_length_takeWhile is_ident_start_char)
  next
    case string
    then show ?thesis
      by (simp add: scan_token_def Let_def take_length_takeWhile take_Suc_takeWhile)
  next
    case operator
    then show ?thesis
      by (cases rest) (simp_all add: scan_token_def)
  next
    case unknown
    then show ?thesis
      by (simp add: scan_token_def)
  qed
qed

lemma reconstructs_skip: "is_space c \<Longrightarrow> reconstructs vs s \<Longrightarrow> reconstructs vs (c # s)"
  by (cases vs) (simp_all add: Let_def)

lemma tok_reconstructs: "reconstructs (map value_tok (tok s p)) s"
proof (induction s p rule: tok.induct)
  case (1 p)
  show ?case by (simp add: tok.simps)
next
  case (2 char rest p)
  show ?case
  proof (cases "is_space char")
    case True
    with 2 show ?thesis
      by (cases "char = newline") (simp_all add: tok.simps reconstructs_skip)
  next
    case False
    with "2.IH"(3) show ?thesis
      by (simp add: tok.simps Let_def scan_token_prefix scan_token_length [symmetric])
  qed
qed

lemma reconstructs_Cons:
  assumes "reconstructs (v # vs) s"
  shows "take (length v) (dropWhile is_space s) = v"
    and "reconstructs vs (drop (length v) (dropWhile is_space s))"
proof -
  have eq: "dropWhile is_space s = drop (length (takeWhile is_space s)) s"
    by (rule dropWhile_eq_drop)
  note p = assms [unfolded reconstructs.simps Let_def, folded eq]
  from p show "take (length v) (dropWhile is_space s) = v"
    by (rule conjunct1)
  from p show "reconstructs vs (drop (length v) (dropWhile is_space s))"
    by (rule conjunct2)
qed

lemma reconstructs_weave: "reconstructs vs s \<Longrightarrow> weave (skipped_runs vs s) vs = s"
proof (induction vs arbitrary: s)
  case Nil
  show ?case by simp
next
  case (Cons v vs)
  let ?r = "dropWhile is_space s"
  note v = reconstructs_Cons(1) [OF Cons.prems]
  note rest = reconstructs_Cons(2) [OF Cons.prems]
  have "weave (skipped_runs (v # vs) s) (v # vs) =
      takeWhile is_space s @ v @ weave (skipped_runs vs (drop (length v) ?r)) vs"
    by simp
  also have "\<dots> = takeWhile is_space s @ v @ drop (length v) ?r"
    by (simp only: Cons.IH [OF rest])
  also have "v @ drop (length v) ?r = ?r"
    by (metis v append_take_drop_id)
  finally show ?case
    by simp
qed

lemma skipped_runs_length: "length (skipped_runs vs s) = length vs + 1"
  by (induction vs arbitrary: s) simp_all

lemma skipped_runs_space:
  "reconstructs vs s \<Longrightarrow> list_all (list_all is_space) (skipped_runs vs s)"
proof (induction vs arbitrary: s)
  case Nil
  then show ?case by simp
next
  case (Cons v vs)
  note rest = reconstructs_Cons(2) [OF Cons.prems]
  have "list_all is_space (takeWhile is_space s)"
    by (auto simp: list_all_iff dest: set_takeWhileD)
  with Cons.IH [OF rest] show ?case
    by simp
qed

lemma run_loop_eq:
  "cur \<le> length content \<Longrightarrow>
   run_loop test content v cur ch =
     Some (v @ takeWhile test (drop cur content),
           cur + length (takeWhile test (drop cur content)),
           ch + length (takeWhile test (drop cur content)))"
proof (induction "length content - cur" arbitrary: v cur ch)
  case 0
  then show ?case
    by (subst run_loop.simps) simp
next
  case (Suc n)
  then have lt: "cur < length content" by simp
  then have d: "drop cur content = content ! cur # drop (Suc cur) content"
    by (simp add: Cons_nth_drop_Suc)
  show ?case
  proof (cases "test (content ! cur)")
    case True
    from Suc.hyps(2) lt have "n = length content - (cur + 1)" by simp
    from Suc.hyps(1)[OF this, of "v @ [content ! cur]" "ch + 1"] lt True show ?thesis
      by (subst run_loop.simps) (simp add: d)
  next
    case False
    then show ?thesis
      by (subst run_loop.simps) (simp add: d)
  qed
qed


lemma scan_token_fits: "length_tok (scan_token char rest p) \<le> Suc (length rest)"
proof -
  let ?t = "scan_token char rest p"
  have "length (take (length_tok ?t) (char # rest)) = length (value_tok ?t)"
    by (simp only: scan_token_prefix)
  then show ?thesis
    by (simp add: scan_token_length [symmetric])
qed

lemma tokenize_loop_eq:
  "cur \<le> length content \<Longrightarrow>
   tokenize_loop content tokens cur ln ch =
     Some (tokens @ tok (drop cur content) \<lparr>line = ln, character = ch\<rparr>)"
proof (induction "length content - cur" arbitrary: tokens cur ln ch rule: less_induct)
  case less
  show ?case
  proof (cases "cur < length content")
    case False
    then show ?thesis
      by (subst tokenize_loop.simps) (simp add: tok.simps)
  next
    case lt: True
    define char where "char = content ! cur"
    define rest where "rest = drop (Suc cur) content"
    define p where "p = \<lparr>line = ln, character = ch\<rparr>"
    have d: "drop cur content = char # rest"
      using lt by (simp add: char_def rest_def Cons_nth_drop_Suc)
    have IH: "tokenize_loop content ts (cur + n) l c =
        Some (ts @ tok (drop n (char # rest)) \<lparr>line = l, character = c\<rparr>)"
      if "0 < n" "cur + n \<le> length content" for ts n l c
    proof -
      have "length content - (cur + n) < length content - cur"
        using that lt by simp
      from less.hyps[OF this that(2)] show ?thesis
        by (simp add: d [symmetric] add.commute)
    qed
    show ?thesis
    proof (cases "is_space char")
      case True
      with IH[of 1] lt show ?thesis
        by (subst tokenize_loop.simps)
          (simp add: d tok.simps char_def [symmetric] advance_def)
    next
      case ns: False
      define t where "t = scan_token char rest p"
      define n where "n = length_tok t"
      have n: "0 < n" "cur + n \<le> length content"
        using scan_token_positive[of char rest p] scan_token_fits[of char rest p] lt
        by (simp_all add: n_def t_def rest_def)
      have rhs: "tok (drop cur content) p = t # tok (drop n (char # rest)) (advance p n)"
        using ns by (simp add: d tok.simps Let_def t_def n_def)
      have goal: "tokenize_loop content (tokens @ [t]) (cur + n) ln (ch + n) =
          Some (tokens @ tok (drop cur content) p)"
        using IH[OF n, of "tokens @ [t]" ln "ch + n"] unfolding rhs
        by (simp add: advance_def p_def)
      consider (digit) "is_digit char"
        | (ident) "\<not> is_digit char" "is_ident_start char"
        | (string) "\<not> is_digit char" "\<not> is_ident_start char" "char = quote"
        | (operator) "\<not> is_digit char" "\<not> is_ident_start char" "char \<noteq> quote"
            "[char] \<in> set operators"
        | (unknown) "\<not> is_digit char" "\<not> is_ident_start char" "char \<noteq> quote"
            "[char] \<notin> set operators"
        by blast
      then show ?thesis
      proof cases
        case digit
        have t: "t = \<lparr>type = NUMBER, value_tok = takeWhile is_digit (drop cur content),
            position = p, length_tok = length (takeWhile is_digit (drop cur content))\<rparr>"
          using digit by (simp add: t_def scan_token_def Let_def d)
        have "n = length (takeWhile is_digit (drop cur content))"
          by (simp add: n_def t)
        with goal digit ns lt show ?thesis
          by (subst tokenize_loop.simps)
            (simp add: char_def [symmetric] run_loop_eq push_token_def t p_def)
      next
        case ident
        have t: "t = \<lparr>type = (if takeWhile is_ident_char (drop cur content) \<in> set keyword_set
              then KEYWORD else IDENTIFIER),
            value_tok = takeWhile is_ident_char (drop cur content),
            position = p, length_tok = length (takeWhile is_ident_char (drop cur content))\<rparr>"
          using ident by (simp add: t_def scan_token_def Let_def d)
        have "n = length (takeWhile is_ident_char (drop cur content))"
          by (simp add: n_def t)
        with goal ident ns lt show ?thesis
          by (subst tokenize_loop.simps)
            (simp add: char_def [symmetric] run_loop_eq push_token_def t p_def)
      next
        case string
        define body where "body = takeWhile (\<lambda>c. c \<noteq> quote) rest"
        define cur' where "cur' = cur + 1 + length body"
        have after: "drop (length body) rest = drop cur' content"
          by (simp add: rest_def cur'_def add.commute)
        have closed: "(drop (length body) rest \<noteq> [] \<and> hd (drop (length body) rest) = quote)
            \<longleftrightarrow> (cur' < length content \<and> content ! cur' = quote)"
          by (auto simp: after hd_drop_conv_nth)
        have run: "run_loop (\<lambda>c. c \<noteq> quote) content [quote] (Suc cur) (Suc ch) =
            Some (quote # body, cur', Suc (ch + length body))"
          using lt by (simp add: run_loop_eq body_def rest_def cur'_def)
        show ?thesis
        proof (cases "cur' < length content \<and> content ! cur' = quote")
          case True
          with closed string have t: "t = \<lparr>type = STRING, value_tok = char # body @ [quote],
              position = p, length_tok = length (char # body @ [quote])\<rparr>"
            by (simp add: t_def scan_token_def Let_def body_def)
          have "cur + n = cur' + 1" "ch + n = ch + 1 + length body + 1"
            by (simp_all add: n_def t cur'_def)
          with goal string ns lt True show ?thesis
            by (subst tokenize_loop.simps)
              (simp add: char_def [symmetric] run push_token_def t p_def)
        next
          case False
          with closed string have t: "t = \<lparr>type = STRING, value_tok = char # body,
              position = p, length_tok = length (char # body)\<rparr>"
            by (simp add: t_def scan_token_def Let_def body_def)
          have "cur + n = cur'" "ch + n = ch + 1 + length body"
            by (simp_all add: n_def t cur'_def)
          with goal string ns lt False show ?thesis
            by (subst tokenize_loop.simps)
              (auto simp: char_def [symmetric] run push_token_def t p_def)
        qed
      next
        case operator
        show ?thesis
        proof (cases "cur + 1 < length content \<and> [char, content ! (cur + 1)] \<in> set operators")
          case True
          then have "rest = content ! (cur + 1) # drop (Suc (Suc cur)) content"
            by (simp add: rest_def Cons_nth_drop_Suc)
          with operator True have t: "t = \<lparr>type = OPERATOR,
              value_tok = [char, content ! (cur + 1)], position = p,
              length_tok = Suc (Suc 0)\<rparr>"
            by (simp add: t_def scan_token_def)
          have "n = 2" by (simp add: n_def t)
          with goal operator ns lt True show ?thesis
            by (subst tokenize_loop.simps)
              (simp add: char_def [symmetric] push_token_def t p_def)
        next
          case False
          have "rest = [] \<or> (\<exists>ys. rest = content ! (cur + 1) # ys \<and> cur + 1 < length content)"
            by (cases "cur + 1 < length content")
              (auto simp: rest_def Cons_nth_drop_Suc [symmetric])
          with operator False have t: "t = \<lparr>type = OPERATOR,
              value_tok = [char], position = p, length_tok = 1\<rparr>"
            by (auto simp: t_def scan_token_def)
          have "n = 1" by (simp add: n_def t)
          with goal operator ns lt False show ?thesis
            by (subst tokenize_loop.simps)
              (auto simp: char_def [symmetric] push_token_def t p_def)
        qed
      next
        case unknown
        then have t: "t = \<lparr>type = UNKNOWN, value_tok = [char], position = p, length_tok = 1\<rparr>"
          by (simp add: t_def scan_token_def)
        have "n = 1" by (simp add: n_def t)
        with goal unknown ns lt show ?thesis
          by (subst tokenize_loop.simps)
            (simp add: char_def [symmetric] t p_def)
      qed
    qed
  qed
qed


text \<open>
  C5 (coverage round-trip): for every input, the values of the tokens of \<open>tokenize\<close>, in
  the order of emission, each behind the run of whitespace skipped before it, and the
  whitespace after the last one, are the input, character for character; the skipped
  runs hold whitespace only, and nothing of the input is left over.
\<close>

theorem tokenize_coverage:
  "reconstructs (map value_tok (tokenize content)) content \<and>
   weave (skipped_runs (map value_tok (tokenize content)) content)
     (map value_tok (tokenize content)) = content \<and>
   list_all (list_all is_space) (skipped_runs (map value_tok (tokenize content)) content) \<and>
   length (skipped_runs (map value_tok (tokenize content)) content) =
     length (tokenize content) + 1"
proof -
  have "reconstructs (map value_tok (tokenize content)) content"
    unfolding tokenize_def by (rule tok_reconstructs)
  then show ?thesis
    by (simp add: reconstructs_weave skipped_runs_space skipped_runs_length)
qed

text \<open>
  C6 (lexer totality): for every input the loops of \<open>tokenize\<close> end and the function
  returns a token sequence, the one computed by \<open>tok\<close>.
\<close>

theorem tokenize_terminates: "tokenize_loop content [] 0 0 0 = Some (tokenize content)"
  by (simp add: tokenize_loop_eq tokenize_def)

text \<open>
  C7 (number lexing): at a digit the lexer takes the longest run of digits as one NUMBER
  token and goes on with the first character that is not a digit, whatever it is; so
  \<open>3.14\<close> gives NUMBER \<open>3\<close>, UNKNOWN \<open>.\<close>, NUMBER \<open>14\<close>.
\<close>

theorem number_lexing:
  "(is_digit c \<longrightarrow>
      tok (c # rest) p =
        \<lparr>type = NUMBER, value_tok = takeWhile is_digit (c # rest), position = p,
         length_tok = length (takeWhile is_digit (c # rest))\<rparr> #
        tok (dropWhile is_digit (c # rest))
          (advance p (length (takeWhile is_digit (c # rest))))) \<and>
   tokenize (js ''3.14'') =
     [\<lparr>type = NUMBER, value_tok = js ''3'', position = \<lparr>line = 0, character = 0\<rparr>,
       length_tok = 1\<rparr>,
      \<lparr>type = UNKNOWN, value_tok = js ''.'', position = \<lparr>line = 0, character = 1\<rparr>,
       length_tok = 1\<rparr>,
      \<lparr>type = NUMBER, value_tok = js ''14'', position = \<lparr>line = 0, character = 2\<rparr>,
       length_tok = 2\<rparr>]"
proof (intro conjI impI)
  assume d: "is_digit c"
  then have "\<not> is_space c"
    by (rule digit_not_space)
  with d show "tok (c # rest) p =
      \<lparr>type = NUMBER, value_tok = takeWhile is_digit (c # rest), position = p,
       length_tok = length (takeWhile is_digit (c # rest))\<rparr> #
      tok (dropWhile is_digit (c # rest))
        (advance p (length (takeWhile is_digit (c # rest))))"
    by (simp add: tok.simps scan_token_def Let_def dropWhile_eq_drop)
next
  show "tokenize (js ''3.14'') =
     [\<lparr>type = NUMBER, value_tok = js ''3'', position = \<lparr>line = 0, character = 0\<rparr>,
       length_tok = 1\<rparr>,
      \<lparr>type = UNKNOWN, value_tok = js ''.'', position = \<lparr>line = 0, character = 1\<rparr>,
       length_tok = 1\<rparr>,
      \<lparr>type = NUMBER, value_tok = js ''14'', position = \<lparr>line = 0, character = 2\<rparr>,
       length_tok = 2\<rparr>]"
    by code_simp
qed

theorem number_lexing_witness:
  "is_digit (of_char CHR ''7'') \<and>
   tok (of_char CHR ''7'' # js ''7+1'') \<lparr>line = 0, character = 0\<rparr> =
     \<lparr>type = NUMBER, value_tok = js ''77'', position = \<lparr>line = 0, character = 0\<rparr>,
      length_tok = 2\<rparr> # tok (js ''+1'') (advance \<lparr>line = 0, character = 0\<rparr> 2)"
proof -
  have d: "is_digit (of_char CHR ''7'')"
    by (simp add: is_digit_def)
  have run: "takeWhile is_digit (of_char CHR ''7'' # js ''7+1'') = js ''77''"
    by (simp add: js_def is_digit_def)
  have left: "dropWhile is_digit (of_char CHR ''7'' # js ''7+1'') = js ''+1''"
    by (simp add: js_def is_digit_def)
  have len: "length (js ''77'') = 2"
    by (simp add: js_def)
  from number_lexing [of "of_char CHR ''7''" "js ''7+1''" "\<lparr>line = 0, character = 0\<rparr>"] d
  have "tok (of_char CHR ''7'' # js ''7+1'') \<lparr>line = 0, character = 0\<rparr> =
     \<lparr>type = NUMBER, value_tok = js ''77'', position = \<lparr>line = 0, character = 0\<rparr>,
      length_tok = 2\<rparr> # tok (js ''+1'') (advance \<lparr>line = 0, character = 0\<rparr> 2)"
    unfolding run left len by blast
  with d show ?thesis
    by (rule conjI)
qed

text \<open>
  C9 (no PUNCTUATION token): no token of \<open>tokenize\<close> has the type PUNCTUATION, and every
  token whose text is a member of the operator set, braces, brackets, parentheses and
  the semicolon among them, has the type OPERATOR.
\<close>

theorem tokenize_no_punctuation:
  "(\<forall>t \<in> set (tokenize content). type t \<noteq> PUNCTUATION) \<and>
   (\<forall>t \<in> set (tokenize content). value_tok t \<in> set operators \<longrightarrow> type t = OPERATOR)"
proof (intro conjI ballI)
  fix t
  assume "t \<in> set (tokenize content)"
  then show "type t \<noteq> PUNCTUATION"
    unfolding tokenize_def
    by (rule tok_tokens [where Q = "\<lambda>t. type t \<noteq> PUNCTUATION", OF scan_token_type])
next
  fix t
  assume "t \<in> set (tokenize content)"
  then have t: "t \<in> set (tok content \<lparr>line = 0, character = 0\<rparr>)"
    by (simp add: tokenize_def)
  define Q where "Q = (\<lambda>t :: Token. value_tok t \<in> set operators \<longrightarrow> type t = OPERATOR)"
  have "\<And>char rest p. Q (scan_token char rest p)"
    by (simp add: Q_def scan_token_operator)
  then have "Q t"
    using t by (rule tok_tokens)
  then show "value_tok t \<in> set operators \<longrightarrow> type t = OPERATOR"
    by (simp add: Q_def)
qed

theorem tokenize_no_punctuation_witness:
  "\<exists>t. t \<in> set (tokenize (js ''{ x; }'')) \<and> value_tok t = js ''{'' \<and>
     value_tok t \<in> set operators \<and> type t = OPERATOR \<and> type t \<noteq> PUNCTUATION"
proof -
  let ?t = "\<lparr>type = OPERATOR, value_tok = js ''{'', position = \<lparr>line = 0, character = 0\<rparr>,
    length_tok = 1\<rparr>"
  have m: "?t \<in> set (tokenize (js ''{ x; }''))"
    by code_simp
  have o: "value_tok ?t \<in> set operators"
    by code_simp
  from tokenize_no_punctuation [of "js ''{ x; }''"] m o
  have "type ?t \<noteq> PUNCTUATION \<and> type ?t = OPERATOR"
    by blast
  with m o show ?thesis
    by (intro exI [of _ ?t]) simp
qed

section \<open>Properties of the validator\<close>

lemma validate_passes_loop:
  "length tokens - current st \<le> n \<Longrightarrow> validate_passes n tokens st = validate_loop tokens st"
proof (induction n arbitrary: st)
  case 0
  then show ?case
    by (simp add: validate_loop.simps)
next
  case (Suc n)
  show ?case
  proof (cases "current st < length tokens")
    case True
    have "current st < current (validate_step tokens st)"
      by (rule validate_step_advances)
    with Suc.prems have "length tokens - current (validate_step tokens st) \<le> n"
      by simp
    from Suc.IH [OF this] True show ?thesis
      by (simp add: validate_loop.simps [of tokens st])
  next
    case False
    then show ?thesis
      by (simp add: validate_loop.simps)
  qed
qed

lemma blockStack_push_error [simp]: "blockStack (push_error t m st) = blockStack st"
  by (simp add: push_error_def)

lemma blocks_counted_current [simp]: "blocks_counted (st\<lparr>current := c\<rparr>) = blocks_counted st"
  by (simp add: blocks_counted_def)

lemma blocks_counted_push_error [simp]: "blocks_counted (push_error t m st) = blocks_counted st"
  by (simp add: blocks_counted_def)

lemma update_top: "bs \<noteq> [] \<Longrightarrow> bs[length bs - Suc 0 := b] = butlast bs @ [b]"
  by (induction bs rule: rev_induct) simp_all

lemma counted_update:
  assumes "\<forall>x \<in> set bs. 1 \<le> braceCount x" and "1 \<le> braceCount b"
  shows "\<forall>x \<in> set (bs[i := b]). 1 \<le> braceCount x"
  using assms set_update_subset_insert [of bs i b] by fastforce

lemma close_brace_counted: "blocks_counted st \<Longrightarrow> blocks_counted (close_brace st)"
proof -
  assume inv: "blocks_counted st"
  show ?thesis
  proof (cases "blockStack st = []")
    case True
    then show ?thesis
      by (simp add: close_brace_def blocks_counted_def)
  next
    case False
    with inv have top: "1 \<le> braceCount (last (blockStack st))"
      by (simp add: blocks_counted_def)
    show ?thesis
    proof (cases "braceCount (last (blockStack st)) - 1 = 0")
      case True
      with inv False show ?thesis
        by (auto simp: close_brace_def blocks_counted_def Let_def dest: in_set_butlastD)
    next
      case more: False
      with top have "1 \<le> braceCount ((last (blockStack st))
          \<lparr>braceCount := braceCount (last (blockStack st)) - 1\<rparr>)"
        by simp
      with inv have "\<forall>x \<in> set ((blockStack st)[length (blockStack st) - 1 :=
          (last (blockStack st))\<lparr>braceCount := braceCount (last (blockStack st)) - 1\<rparr>]).
          1 \<le> braceCount x"
        unfolding blocks_counted_def by (rule counted_update)
      with False more show ?thesis
        by (simp add: close_brace_def blocks_counted_def Let_def)
    qed
  qed
qed

lemma open_brace_counted: "blocks_counted st \<Longrightarrow> blocks_counted (open_brace st)"
proof -
  assume inv: "blocks_counted st"
  show ?thesis
  proof (cases "length (blockStack st) > 0 \<and> startIndex (last (blockStack st)) \<noteq> current st")
    case False
    with inv show ?thesis
      by (auto simp: open_brace_def blocks_counted_def)
  next
    case True
    with inv have "1 \<le> braceCount (last (blockStack st))"
      by (simp add: blocks_counted_def)
    then have "1 \<le> braceCount ((last (blockStack st))
        \<lparr>braceCount := braceCount (last (blockStack st)) + 1\<rparr>)"
      by simp
    with inv have "\<forall>x \<in> set ((blockStack st)[length (blockStack st) - 1 :=
        (last (blockStack st))\<lparr>braceCount := braceCount (last (blockStack st)) + 1\<rparr>]).
        1 \<le> braceCount x"
      unfolding blocks_counted_def by (rule counted_update)
    with True show ?thesis
      by (simp add: open_brace_def blocks_counted_def Let_def)
  qed
qed

lemma var_case_blockStack: "blockStack (var_case tokens token st) = blockStack st"
  by (simp add: var_case_def Let_def split: prod.splits)

lemma call_case_blockStack: "blockStack (call_case tokens token st) = blockStack st"
  by (simp add: call_case_def Let_def split: prod.splits)

lemma expect_block_counted:
  "blocks_counted st \<Longrightarrow> blocks_counted (expect_block tokens token b w cur st)"
  by (simp add: expect_block_def blocks_counted_def)

lemma control_case_counted: "blocks_counted st \<Longrightarrow> blocks_counted (control_case tokens token st)"
  by (simp add: control_case_def Let_def expect_block_counted split: prod.splits)

lemma else_case_counted: "blocks_counted st \<Longrightarrow> blocks_counted (else_case tokens token st)"
  by (simp add: else_case_def Let_def expect_block_counted split: prod.splits)

lemma validate_step_cases:
  assumes "P (close_brace st)"
    and "P (open_brace st)"
    and "\<And>msg. P ((push_error (tokens ! current st) msg st)\<lparr>current := current st + 1\<rparr>)"
    and "P (var_case tokens (tokens ! current st) st)"
    and "P (call_case tokens (tokens ! current st) st)"
    and "P (control_case tokens (tokens ! current st) st)"
    and "P (else_case tokens (tokens ! current st) st)"
    and "P (st\<lparr>current := current st + 1\<rparr>)"
  shows "P (validate_step tokens st)"
  unfolding validate_step_def Let_def
  using assms by (simp only: split: if_split) blast

lemma validate_step_counted: "blocks_counted st \<Longrightarrow> blocks_counted (validate_step tokens st)"
  by (rule validate_step_cases)
    (simp_all add: close_brace_counted open_brace_counted control_case_counted
      else_case_counted, simp_all add: blocks_counted_def var_case_blockStack
      call_case_blockStack)

lemma validate_passes_counted:
  "blocks_counted st \<Longrightarrow> blocks_counted (validate_passes n tokens st)"
  by (induction n arbitrary: st) (simp_all add: validate_step_counted)

lemma initial_counted: "blocks_counted initial"
  by (simp add: blocks_counted_def initial_def)

lemma close_brace_top:
  "blockStack st \<noteq> [] \<Longrightarrow>
   blockStack (close_brace st) =
     (if braceCount (last (blockStack st)) - 1 = 0 then butlast (blockStack st)
      else butlast (blockStack st) @
        [(last (blockStack st))\<lparr>braceCount := braceCount (last (blockStack st)) - 1\<rparr>])"
proof -
  assume ne: "blockStack st \<noteq> []"
  then have split: "blockStack st = butlast (blockStack st) @ [last (blockStack st)]"
    by simp
  from ne show ?thesis
    by (simp add: close_brace_def Let_def update_top)
qed

lemma createError_at: "token \<in> set tokens \<Longrightarrow> error_at tokens (createError token msg)"
  by (auto simp: error_at_def createError_def createDiagnostic_def Let_def
      DiagnosticSeverity_Error_def)

lemma anchored_current [simp]: "anchored tokens (st\<lparr>current := c\<rparr>) = anchored tokens st"
  by (simp add: anchored_def)

lemma push_error_anchored:
  "token \<in> set tokens \<Longrightarrow> anchored tokens st \<Longrightarrow> anchored tokens (push_error token msg st)"
  by (simp add: anchored_def push_error_def createError_at)

lemma start_update:
  assumes "\<forall>x \<in> set bs. startToken x \<in> T" and "startToken b \<in> T"
  shows "\<forall>x \<in> set (bs[i := b]). startToken x \<in> T"
  using assms set_update_subset_insert [of bs i b] by fastforce

lemma close_brace_anchored: "anchored tokens st \<Longrightarrow> anchored tokens (close_brace st)"
proof -
  assume inv: "anchored tokens st"
  show ?thesis
  proof (cases "blockStack st = []")
    case True
    with inv show ?thesis
      by (simp add: close_brace_def anchored_def)
  next
    case False
    with inv have "startToken ((last (blockStack st))
        \<lparr>braceCount := braceCount (last (blockStack st)) - 1\<rparr>) \<in> set tokens"
      by (simp add: anchored_def)
    with inv have "\<forall>x \<in> set ((blockStack st)[length (blockStack st) - 1 :=
        (last (blockStack st))\<lparr>braceCount := braceCount (last (blockStack st)) - 1\<rparr>]).
        startToken x \<in> set tokens"
      unfolding anchored_def by (intro start_update) simp_all
    with inv False show ?thesis
      by (auto simp: close_brace_def anchored_def Let_def dest: in_set_butlastD)
  qed
qed

lemma open_brace_anchored: "anchored tokens st \<Longrightarrow> anchored tokens (open_brace st)"
proof -
  assume inv: "anchored tokens st"
  show ?thesis
  proof (cases "length (blockStack st) > 0 \<and> startIndex (last (blockStack st)) \<noteq> current st")
    case False
    with inv show ?thesis
      by (auto simp: open_brace_def anchored_def)
  next
    case True
    with inv have "startToken ((last (blockStack st))
        \<lparr>braceCount := braceCount (last (blockStack st)) + 1\<rparr>) \<in> set tokens"
      by (simp add: anchored_def)
    with inv have "\<forall>x \<in> set ((blockStack st)[length (blockStack st) - 1 :=
        (last (blockStack st))\<lparr>braceCount := braceCount (last (blockStack st)) + 1\<rparr>]).
        startToken x \<in> set tokens"
      unfolding anchored_def by (intro start_update) simp_all
    with inv True show ?thesis
      by (simp add: open_brace_def anchored_def Let_def)
  qed
qed

lemma skip_parens_le:
  "skip_parens tokens cur pc = (cur', pc') \<Longrightarrow> cur \<le> length tokens \<Longrightarrow> cur' \<le> length tokens"
proof (induction tokens cur pc rule: skip_parens.induct)
  case (1 tokens cur parenCount)
  show ?case
  proof (cases "cur < length tokens \<and> parenCount > 0")
    case True
    from "1.prems"(1) True obtain c where "skip_parens tokens (cur + 1) c = (cur', pc')"
      and "c = (if value_tok (tokens ! cur) = js '')''
                then (if value_tok (tokens ! cur) = js ''('' then parenCount + 1 else parenCount) - 1
                else (if value_tok (tokens ! cur) = js ''('' then parenCount + 1 else parenCount))"
      by (subst (asm) skip_parens.simps) (simp add: Let_def)
    with "1.IH" [OF True refl refl] True show ?thesis
      by simp
  next
    case False
    with "1.prems" show ?thesis
      by (subst (asm) skip_parens.simps) simp
  qed
qed

lemma scan_initializer_le:
  "scan_initializer tokens d cur ds = (cur', ds') \<Longrightarrow> cur \<le> length tokens \<Longrightarrow>
   cur' \<le> length tokens"
proof (induction tokens d cur ds rule: scan_initializer.induct)
  case (1 tokens declared cur diags)
  show ?case
  proof (cases "cur < length tokens \<and> value_tok (tokens ! cur) \<noteq> js '';''")
    case True
    from "1.prems"(1) True have "scan_initializer tokens declared (cur + 1)
        (if type (tokens ! cur) = IDENTIFIER \<and> value_tok (tokens ! cur) \<notin> declared
         then diags @ [createError (tokens ! cur)
                (js ''Undefined variable '' @ [quote] @ value_tok (tokens ! cur) @ [quote] @
                 js '' in initialization'')]
         else diags) = (cur', ds')"
      by (subst (asm) scan_initializer.simps) simp
    from "1.IH" [OF True this] True show ?thesis
      by simp
  next
    case False
    with "1.prems" show ?thesis
      by (subst (asm) scan_initializer.simps) simp
  qed
qed

lemma scan_initializer_errors:
  "scan_initializer tokens d cur ds = (cur', ds') \<Longrightarrow> \<forall>x \<in> set ds. error_at tokens x \<Longrightarrow>
   \<forall>x \<in> set ds'. error_at tokens x"
proof (induction tokens d cur ds rule: scan_initializer.induct)
  case (1 tokens declared cur diags)
  show ?case
  proof (cases "cur < length tokens \<and> value_tok (tokens ! cur) \<noteq> js '';''")
    case True
    define ds0 where "ds0 =
      (if type (tokens ! cur) = IDENTIFIER \<and> value_tok (tokens ! cur) \<notin> declared
       then diags @ [createError (tokens ! cur)
              (js ''Undefined variable '' @ [quote] @ value_tok (tokens ! cur) @ [quote] @
               js '' in initialization'')]
       else diags)"
    from True have "tokens ! cur \<in> set tokens"
      by simp
    with "1.prems"(2) have ok: "\<forall>x \<in> set ds0. error_at tokens x"
      by (simp add: ds0_def createError_at)
    from "1.prems"(1) True have "scan_initializer tokens declared (cur + 1) ds0 = (cur', ds')"
      by (subst (asm) scan_initializer.simps) (simp add: ds0_def)
    from "1.IH" [OF True this [unfolded ds0_def] ok [unfolded ds0_def]] show ?thesis .
  next
    case False
    with "1.prems" show ?thesis
      by (subst (asm) scan_initializer.simps) simp
  qed
qed

lemma var_case_anchored:
  assumes cur: "current st < length tokens" and inv: "anchored tokens st"
  shows "anchored tokens (var_case tokens (tokens ! current st) st)"
proof -
  let ?cur = "current st"
  from cur have tok: "tokens ! ?cur \<in> set tokens"
    by simp
  consider (no_name) "?cur + 1 \<ge> length tokens \<or> type (tokens ! (?cur + 1)) \<noteq> IDENTIFIER"
    | (no_init) "?cur + 1 < length tokens" "type (tokens ! (?cur + 1)) = IDENTIFIER"
        "?cur + 2 \<ge> length tokens \<or> value_tok (tokens ! (?cur + 2)) \<noteq> js ''=''"
    | (decl) "?cur + 1 < length tokens" "type (tokens ! (?cur + 1)) = IDENTIFIER"
        "?cur + 2 < length tokens" "value_tok (tokens ! (?cur + 2)) = js ''=''"
    by force
  then show ?thesis
  proof cases
    case no_name
    with tok inv show ?thesis
      by (simp add: var_case_def Let_def push_error_anchored)
  next
    case no_init
    then have "tokens ! (?cur + 1) \<in> set tokens"
      by simp
    with no_init inv show ?thesis
      by (simp add: var_case_def Let_def push_error_anchored)
  next
    case decl
    let ?declared = "insert (value_tok (tokens ! (?cur + 1))) (declaredVariables st)"
    obtain cur' diags where scan:
      "scan_initializer tokens ?declared (?cur + 3) (diagnostics st) = (cur', diags)"
      by (cases "scan_initializer tokens ?declared (?cur + 3) (diagnostics st)")
    from inv have "\<forall>x \<in> set (diagnostics st). error_at tokens x"
      by (simp add: anchored_def)
    with scan have diags: "\<forall>x \<in> set diags. error_at tokens x"
      by (rule scan_initializer_errors)
    from scan decl have le: "cur' \<le> length tokens"
      by (intro scan_initializer_le [OF scan]) simp
    from scan have ge: "?cur + 3 \<le> cur'"
      by (rule scan_initializer_ge)
    let ?st' = "st\<lparr>diagnostics := diags, declaredVariables := ?declared, current := cur'\<rparr>"
    from inv diags have st': "anchored tokens ?st'"
      by (simp add: anchored_def)
    from le ge have "tokens ! (cur' - 1) \<in> set tokens"
      by simp
    with st' have "anchored tokens (push_error (tokens ! (cur' - 1)) msg ?st')" for msg
      by (simp add: push_error_anchored)
    with st' decl scan show ?thesis
      by (simp add: var_case_def Let_def)
  qed
qed

lemma call_case_anchored:
  assumes cur: "current st < length tokens" and inv: "anchored tokens st"
  shows "anchored tokens (call_case tokens (tokens ! current st) st)"
proof -
  from cur have "tokens ! current st \<in> set tokens"
    by simp
  with inv have "anchored tokens (push_error (tokens ! current st) msg st)" for msg
    by (simp add: push_error_anchored)
  with inv show ?thesis
    by (simp add: call_case_def Let_def split: prod.splits)
qed

lemma expect_block_anchored:
  assumes "token \<in> set tokens" and "anchored tokens st"
  shows "anchored tokens (expect_block tokens token b w cur st)"
proof (cases "cur < length tokens \<and> value_tok (tokens ! cur) = js ''{''")
  case True
  with assms show ?thesis
    by (simp add: expect_block_def anchored_def)
next
  case False
  from assms have "(if cur < length tokens then tokens ! cur else token) \<in> set tokens"
    by simp
  from this assms(2) have "anchored tokens
      (push_error (if cur < length tokens then tokens ! cur else token) msg st)" for msg
    by (rule push_error_anchored)
  with False show ?thesis
    by (auto simp: expect_block_def)
qed

lemma control_case_anchored:
  assumes cur: "current st < length tokens" and inv: "anchored tokens st"
  shows "anchored tokens (control_case tokens (tokens ! current st) st)"
proof -
  from cur have tok: "tokens ! current st \<in> set tokens"
    by simp
  with inv have "anchored tokens (push_error (tokens ! current st) msg st)" for msg
    by (simp add: push_error_anchored)
  moreover from tok inv
  have "anchored tokens (expect_block tokens (tokens ! current st) b w c st)" for b w c
    by (rule expect_block_anchored)
  ultimately show ?thesis
    by (simp add: control_case_def Let_def split: prod.splits)
qed

lemma else_case_anchored:
  assumes cur: "current st < length tokens" and inv: "anchored tokens st"
  shows "anchored tokens (else_case tokens (tokens ! current st) st)"
proof -
  let ?cur = "current st"
  from cur have tok: "tokens ! ?cur \<in> set tokens"
    by simp
  with inv have here: "anchored tokens (push_error (tokens ! ?cur) msg st)" for msg
    by (simp add: push_error_anchored)
  from tok inv
  have block: "anchored tokens (expect_block tokens (tokens ! ?cur) b w c st)" for b w c
    by (rule expect_block_anchored)
  show ?thesis
  proof (cases "list_ex isIf (blockStack st) \<and> ?cur + 1 < length tokens \<and>
      value_tok (tokens ! (?cur + 1)) = js ''if''")
    case False
    with here block show ?thesis
      by (auto simp: else_case_def Let_def)
  next
    case elseif: True
    then have next_tok: "tokens ! (?cur + 1) \<in> set tokens"
      by simp
    show ?thesis
    proof (cases "?cur + 2 \<ge> length tokens \<or> value_tok (tokens ! (?cur + 2)) \<noteq> js ''(''")
      case True
      from next_tok inv have "anchored tokens (push_error (tokens ! (?cur + 1)) msg st)" for msg
        by (simp add: push_error_anchored)
      with elseif True show ?thesis
        by (simp add: else_case_def Let_def)
    next
      case False
      obtain cur' pc where skip: "skip_parens tokens (?cur + 3) 1 = (cur', pc)"
        by (cases "skip_parens tokens (?cur + 3) 1")
      from False have "?cur + 3 \<le> length tokens"
        by simp
      with skip have "cur' \<le> length tokens"
        by (rule skip_parens_le)
      moreover from skip have "?cur + 3 \<le> cur'"
        by (rule skip_parens_ge)
      ultimately have "tokens ! (cur' - 1) \<in> set tokens"
        by simp
      with inv have "anchored tokens (push_error (tokens ! (cur' - 1)) msg st)" for msg
        by (simp add: push_error_anchored)
      with elseif False skip block show ?thesis
        by (simp add: else_case_def Let_def)
    qed
  qed
qed

lemma validate_step_anchored:
  assumes cur: "current st < length tokens" and inv: "anchored tokens st"
  shows "anchored tokens (validate_step tokens st)"
proof (rule validate_step_cases)
  fix msg
  from cur have "tokens ! current st \<in> set tokens"
    by simp
  with inv show "anchored tokens ((push_error (tokens ! current st) msg st)\<lparr>current := current st + 1\<rparr>)"
    by (simp add: push_error_anchored)
qed (simp_all add: assms close_brace_anchored open_brace_anchored var_case_anchored
    call_case_anchored control_case_anchored else_case_anchored)

lemma validate_loop_anchored:
  "anchored tokens st \<Longrightarrow> anchored tokens (validate_loop tokens st)"
proof (induction tokens st rule: validate_loop.induct)
  case (1 tokens st)
  show ?case
  proof (cases "current st < length tokens")
    case True
    with 1 show ?thesis
      by (simp add: validate_loop.simps [of tokens st] validate_step_anchored)
  next
    case False
    with "1.prems" show ?thesis
      by (simp add: validate_loop.simps)
  qed
qed

lemma validateSyntax_errors:
  "d \<in> set (validateSyntax tokens) \<Longrightarrow> error_at tokens d"
proof -
  have "anchored tokens initial"
    by (simp add: anchored_def initial_def)
  then have "anchored tokens (validate_loop tokens initial)"
    by (rule validate_loop_anchored)
  then show "d \<in> set (validateSyntax tokens) \<Longrightarrow> error_at tokens d"
    by (auto simp: validateSyntax_def Let_def anchored_def unclosed_blocks_def createError_at)
qed

text \<open>
  C4 (forward self-reference): \<open>var x = x;\<close> gives no diagnostic. The name is put into
  \<open>declaredVariables\<close> before the initializer is scanned: scanned with \<open>x\<close> declared
  the initializer gives nothing, scanned with no name declared it would give the
  diagnostic for \<open>x\<close>.
\<close>

theorem forward_self_reference:
  "validateSyntax (tokenize (js ''var x = x;'')) = [] \<and>
   scan_initializer (tokenize (js ''var x = x;'')) {js ''x''} 3 [] = (4, []) \<and>
   scan_initializer (tokenize (js ''var x = x;'')) {} 3 [] =
     (4, [createError
            \<lparr>type = IDENTIFIER, value_tok = js ''x'', position = \<lparr>line = 0, character = 8\<rparr>,
             length_tok = 1\<rparr>
            (js ''Undefined variable '' @ [quote] @ js ''x'' @ [quote] @
             js '' in initialization'')])"
  by code_simp

text \<open>
  C8 (diagnostic shape): every diagnostic returned by \<open>validateSyntax\<close>, for every token
  sequence, has severity 1 (Error), the source \<open>Catt LSP\<close>, and a range from the position
  of a token of the sequence to the same line, \<open>length\<close> characters further.
\<close>

theorem diagnostic_shape:
  "\<forall>d \<in> set (validateSyntax tokens).
     severity d = 1 \<and> severity d = DiagnosticSeverity_Error \<and> source d = js ''Catt LSP'' \<and>
     (\<exists>token \<in> set tokens. range_diag d =
        \<lparr>start = position token,
         end_pos = \<lparr>line = line (position token),
                    character = character (position token) + length_tok token\<rparr>\<rparr>)"
proof
  fix d
  assume "d \<in> set (validateSyntax tokens)"
  then have "error_at tokens d"
    by (rule validateSyntax_errors)
  then show "severity d = 1 \<and> severity d = DiagnosticSeverity_Error \<and>
     source d = js ''Catt LSP'' \<and>
     (\<exists>token \<in> set tokens. range_diag d =
        \<lparr>start = position token,
         end_pos = \<lparr>line = line (position token),
                    character = character (position token) + length_tok token\<rparr>\<rparr>)"
    by (simp add: error_at_def DiagnosticSeverity_Error_def)
qed

theorem diagnostic_shape_witness:
  "\<exists>d. d \<in> set (validateSyntax (tokenize (js ''x''))) \<and> severity d = 1 \<and>
     source d = js ''Catt LSP'' \<and>
     range_diag d = \<lparr>start = \<lparr>line = 0, character = 0\<rparr>,
                      end_pos = \<lparr>line = 0, character = 1\<rparr>\<rparr>"
proof -
  let ?x = "\<lparr>type = IDENTIFIER, value_tok = js ''x'', position = \<lparr>line = 0, character = 0\<rparr>,
    length_tok = 1\<rparr>"
  let ?d = "createError ?x (js ''Undefined variable '' @ [quote] @ js ''x'' @ [quote])"
  have out: "validateSyntax (tokenize (js ''x'')) = [?d]"
    by code_simp
  then have m: "?d \<in> set (validateSyntax (tokenize (js ''x'')))"
    by simp
  with diagnostic_shape [of "tokenize (js ''x'')"]
  have "severity ?d = 1 \<and> source ?d = js ''Catt LSP''"
    by blast
  moreover have "range_diag ?d = \<lparr>start = \<lparr>line = 0, character = 0\<rparr>,
      end_pos = \<lparr>line = 0, character = 1\<rparr>\<rparr>"
    by (simp add: createError_def createDiagnostic_def)
  ultimately show ?thesis
    using m by blast
qed

text \<open>
  C10 (block-stack invariant): at the head of every pass of the main loop, and when the
  loop has ended, every block on the stack has a count of at least 1, so the guard
  \<open>braceCount > 0\<close> of the final pass holds for every block left; the loop is over after
  at most as many passes as there are tokens; and a \<open>}\<close> changes the top block only,
  taking 1 from its count and popping it exactly when the count has become 0.
\<close>

theorem block_stack_invariant:
  "(\<forall>block \<in> set (blockStack (validate_passes n tokens initial)). 1 \<le> braceCount block) \<and>
   validate_loop tokens initial = validate_passes (length tokens) tokens initial \<and>
   (\<forall>block \<in> set (blockStack (validate_loop tokens initial)). 0 < braceCount block) \<and>
   (blockStack st \<noteq> [] \<longrightarrow>
      blockStack (close_brace st) =
        (if braceCount (last (blockStack st)) - 1 = 0 then butlast (blockStack st)
         else butlast (blockStack st) @
           [(last (blockStack st))\<lparr>braceCount := braceCount (last (blockStack st)) - 1\<rparr>]))"
proof (intro conjI)
  have "blocks_counted (validate_passes k tokens initial)" for k
    by (rule validate_passes_counted) (rule initial_counted)
  then have passes: "\<forall>block \<in> set (blockStack (validate_passes k tokens initial)).
      1 \<le> braceCount block" for k
    by (simp add: blocks_counted_def)
  from passes show "\<forall>block \<in> set (blockStack (validate_passes n tokens initial)).
      1 \<le> braceCount block" .
  show loop: "validate_loop tokens initial = validate_passes (length tokens) tokens initial"
    by (simp add: validate_passes_loop)
  from passes [of "length tokens"]
  show "\<forall>block \<in> set (blockStack (validate_loop tokens initial)). 0 < braceCount block"
    unfolding loop by fastforce
  show "blockStack st \<noteq> [] \<longrightarrow>
      blockStack (close_brace st) =
        (if braceCount (last (blockStack st)) - 1 = 0 then butlast (blockStack st)
         else butlast (blockStack st) @
           [(last (blockStack st))\<lparr>braceCount := braceCount (last (blockStack st)) - 1\<rparr>])"
    by (simp add: close_brace_top)
qed

theorem block_stack_invariant_witness:
  "(\<exists>block. block \<in> set (blockStack (validate_passes 2 (tokenize (js ''if (a) { ; {'')) initial)) \<and>
      braceCount block = 2 \<and> 1 \<le> braceCount block) \<and>
   (\<exists>block. block \<in> set (blockStack (validate_loop (tokenize (js ''if (a) { ; {'')) initial)) \<and>
      0 < braceCount block) \<and>
   blockStack (validate_passes 2 (tokenize (js ''if (a) { ; {'')) initial) \<noteq> [] \<and>
   map braceCount
     (blockStack (close_brace (validate_passes 2 (tokenize (js ''if (a) { ; {'')) initial))) = [1]"
proof -
  let ?tokens = "tokenize (js ''if (a) { ; {'')"
  let ?if = "\<lparr>type = KEYWORD, value_tok = js ''if'', position = \<lparr>line = 0, character = 0\<rparr>,
    length_tok = 2\<rparr>"
  let ?block = "\<lparr>isIf = True, startToken = ?if, startIndex = 4, braceCount = 2\<rparr>"
  let ?st = "validate_passes 2 ?tokens initial"
  have stack: "blockStack ?st = [?block]"
    by code_simp
  have len: "length ?tokens = 7"
    by code_simp
  have final: "validate_passes 7 ?tokens initial = ?st"
    by code_simp
  note inv = block_stack_invariant [of 2 ?tokens ?st]
  from inv stack have one: "1 \<le> braceCount ?block"
    by simp
  from inv have "validate_loop ?tokens initial = ?st"
    by (simp add: len final)
  with inv stack have two: "?block \<in> set (blockStack (validate_loop ?tokens initial)) \<and>
      0 < braceCount ?block"
    by simp
  from inv stack have "blockStack (close_brace ?st) = [?block\<lparr>braceCount := 1\<rparr>]"
    by simp
  with one two stack show ?thesis
    by (intro conjI exI [of _ ?block]) simp_all
qed

text \<open>
  C1 (clean programs): the claim does not hold for the code. After the opening brace of
  a block the cursor is moved twice, so the token that follows the brace is never looked
  at: the closing brace of an empty block is missed and the block is reported as
  unclosed, and a \<open>var\<close> that opens a body is missed and its name reported as undefined.
  An \<open>else\<close> after the closing brace of its \<open>if\<close> finds the block of the \<open>if\<close>
  popped and is reported too.
\<close>

theorem clean_program_diagnostics:
  "validateSyntax (tokenize (js ''var a = 1; if (a) { }'')) =
     [createError
        \<lparr>type = KEYWORD, value_tok = js ''if'', position = \<lparr>line = 0, character = 11\<rparr>,
         length_tok = 2\<rparr>
        (js ''Unclosed block starting at position 9'')] \<and>
   validateSyntax (tokenize (js ''var a = 1; while (a) { var x = 2; }'')) =
     [createError
        \<lparr>type = IDENTIFIER, value_tok = js ''x'', position = \<lparr>line = 0, character = 27\<rparr>,
         length_tok = 1\<rparr>
        (js ''Undefined variable '' @ [quote] @ js ''x'' @ [quote])] \<and>
   validateSyntax (tokenize (js ''var a = 1; if (a) { a; } else { a; }'')) =
     [createError
        \<lparr>type = KEYWORD, value_tok = js ''else'', position = \<lparr>line = 0, character = 25\<rparr>,
         length_tok = 4\<rparr>
        (js ''else statement without preceding if statement'')]"
  by code_simp

text \<open>
  C2 (condition opacity): the first half holds, no diagnostic names the \<open>y\<close> of the
  condition of \<open>if (y) { }\<close> (the only diagnostic is the unclosed block). The second half
  does not hold for the code: in \<open>if (a) { y; }\<close> the \<open>y\<close> is the token after the
  opening brace, which the cursor skips, and nothing is reported; behind one more token
  the same \<open>y\<close> is reported.
\<close>

theorem condition_opacity_body:
  "validateSyntax (tokenize (js ''if (y) { }'')) =
     [createError
        \<lparr>type = KEYWORD, value_tok = js ''if'', position = \<lparr>line = 0, character = 0\<rparr>,
         length_tok = 2\<rparr>
        (js ''Unclosed block starting at position 4'')] \<and>
   validateSyntax (tokenize (js ''if (a) { y; }'')) = [] \<and>
   validateSyntax (tokenize (js ''if (a) { ; y; }'')) =
     [createError
        \<lparr>type = IDENTIFIER, value_tok = js ''y'', position = \<lparr>line = 0, character = 11\<rparr>,
         length_tok = 1\<rparr>
        (js ''Undefined variable '' @ [quote] @ js ''y'' @ [quote])]"
  by code_simp

text \<open>
  C3 (the \<open>isIf\<close> of a pushed block): the claim does not hold for the code. The block
  pushed for \<open>while\<close> and for \<open>for\<close> has \<open>isIf\<close> true, as the one pushed for \<open>if\<close>, so
  an \<open>else\<close> inside a \<open>while\<close> body with no \<open>if\<close> open is accepted.
\<close>

theorem control_block_isIf:
  "map isIf (blockStack (validate_step (tokenize (js ''while (a) { }'')) initial)) = [True] \<and>
   map isIf (blockStack (validate_step (tokenize (js ''for (a) { }'')) initial)) = [True] \<and>
   map isIf (blockStack (validate_step (tokenize (js ''if (a) { }'')) initial)) = [True] \<and>
   validateSyntax (tokenize (js ''while (a) { ; else { ; } }'')) = []"
  by code_simp

end
